theory Spec2Isabelle
  imports Main "HOL-Library.Monad_Syntax"
begin

section \<open>Typed routes: the store model of \<open>src/index.ts\<close>\<close>

text \<open>
  The module builds route values: objects with a \<open>template\<close> string, a phantom
  \<open>parameters\<close> field, a flat filler \<open>fillAll\<close> and a curried filler \<open>filled\<close>.
  Every arrow function of the module is a closure over the variables \<open>route\<close>,
  \<open>segment\<close> or \<open>routeArgs\<close>; the closures are defunctionalised below, one constructor
  per arrow function of the source, holding the captured variables. A captured \<open>route\<close>
  is a reference to an object, so route objects live in an explicit store and the closures
  read \<open>route.fillAll\<close> and \<open>route.filled\<close> from the store when they are called, as
  the source does.
\<close>

subsection \<open>Argument values and string interpolation\<close>

text \<open>
  The values a caller passes for a parameter. The model covers the primitive values whose
  interpolation in a template literal is total and pure: \<open>undefined\<close>, \<open>null\<close>,
  booleans, integral numbers and strings. \<open>JNum i\<close> stands for a number only when
  \<open>i\<close> is a safe integer (of magnitude below \<open>2^53\<close>); these are exact JavaScript
  numbers and are printed in plain decimal digits. Objects, symbols, fractional numbers
  and larger numbers are outside the model. The general results below leave the value
  and its rendering \<open>ToString v\<close> symbolic; numbers occur in the examples only, as small
  numerals.
\<close>

datatype jsval = Undefined | Null | JBool bool | JNum int | JStr string

definition digit :: "nat \<Rightarrow> char" where
  "digit d = ''0123456789'' ! d"

function show_nat :: "nat \<Rightarrow> string" where
  "show_nat n = (if n < 10 then [digit n] else show_nat (n div 10) @ [digit (n mod 10)])"
  by pat_completeness auto
termination
  by (relation "measure id") auto

declare show_nat.simps [simp del]

text \<open>\<open>ToString\<close> is what \<open>${v}\<close> yields inside a template literal.\<close>

fun ToString :: "jsval \<Rightarrow> string" where
  "ToString Undefined = ''undefined''"
| "ToString Null = ''null''"
| "ToString (JBool b) = (if b then ''true'' else ''false'')"
| "ToString (JNum i) = (if i < 0 then ''-'' @ show_nat (nat (- i)) else show_nat (nat i))"
| "ToString (JStr s) = s"

subsection \<open>Closures, route objects and the store\<close>

type_synonym ref = nat

text \<open>
  The functions a \<open>filled\<close> field can hold:
  \<^item> \<open>CurryStr routeArgs\<close>: the arrow function \<open>makeFilledCurry\<close> returns when
    \<open>routeArgs\<close> is a string (lines 42-44);
  \<^item> \<open>CurryFun routeArgs\<close>: the arrow function \<open>makeFilledCurry\<close> returns when
    \<open>routeArgs\<close> is a function (lines 46-53);
  \<^item> \<open>SegFilled route segment\<close>: the arrow function \<open>addSegment\<close> stores in
    \<open>filled\<close> when \<open>route.filled\<close> is not a string (line 76).
\<close>

datatype fn = CurryStr string | CurryFun fn | SegFilled ref string

text \<open>\<open>type FilledType = string | ((arg: any) => FilledType)\<close> (line 1).\<close>

datatype FilledType = FStr string | FFun fn

text \<open>
  The functions a \<open>fillAll\<close> field can hold: \<open>() => ''\<close> of \<open>createRoute\<close>
  (line 31), and the arrow functions of \<open>addSegment\<close> (line 73), \<open>addParameter\<close>
  (line 97) and \<open>addOptionalParameter\<close> (line 118).
\<close>

datatype fillAllFn = FillEmpty | FillSeg ref string | FillParam ref | FillOpt ref

record ITypedRoute =
  template :: string
  parameters :: jsval
  fillAll :: fillAllFn
  filled :: FilledType

text \<open>
  The store is the list of the route objects allocated so far; a reference is the index
  of an object. An object literal allocates: it appends to the store. Nothing in the
  module assigns to a property of a route object, so the store has no update operation.
\<close>

type_synonym heap = "ITypedRoute list"

definition deref :: "heap \<Rightarrow> ref \<Rightarrow> ITypedRoute option" where
  "deref h r = (if r < length h then Some (h ! r) else None)"

definition alloc :: "heap \<Rightarrow> ITypedRoute \<Rightarrow> ref \<times> heap" where
  "alloc h obj = (length h, h @ [obj])"

subsection \<open>Calling the closures\<close>

datatype error = TypeError

text \<open>
  Interpolating a function in a template literal yields the source text of the function
  (\<open>Function.prototype.toString\<close>). The text depends on the arrow function only, not on
  the captured values. The texts below are the arrow functions of \<open>index.ts\<close> with the
  type annotations erased and the white space collapsed; the text an engine returns is
  that of the compiled module. The results below rely only on its being a string.
\<close>

fun fnSource :: "fn \<Rightarrow> string" where
  "fnSource (CurryStr _) =
     ''(arg) => arg !== undefined ? `${routeArgs}/${arg}` : routeArgs''"
| "fnSource (CurryFun _) =
     ''(arg) => { if (arg !== undefined) { const nestedArgs = routeArgs(arg); return makeFilledCurry(nestedArgs); } else { return routeArgs; } }''"
| "fnSource (SegFilled _ _) =
     ''(arg) => `${route.filled(arg)}/${segment}`''"

fun filledToString :: "FilledType \<Rightarrow> string" where
  "filledToString (FStr s) = s"
| "filledToString (FFun f) = fnSource f"

text \<open>\<open>makeFilledCurry\<close> (lines 40-55) returns one of its two arrow functions.\<close>

fun makeFilledCurry :: "FilledType \<Rightarrow> fn" where
  "makeFilledCurry (FStr routeArgs) = CurryStr routeArgs"
| "makeFilledCurry (FFun routeArgs) = CurryFun routeArgs"

text \<open>
  A missing positional argument is \<open>undefined\<close>; a rest parameter takes what is left.
\<close>

fun firstArg :: "jsval list \<Rightarrow> jsval" where
  "firstArg [] = Undefined"
| "firstArg (param # params) = param"

fun restArgs :: "jsval list \<Rightarrow> jsval list" where
  "restArgs [] = []"
| "restArgs (param # params) = params"

text \<open>
  Calling a \<open>fillAll\<close> function with an argument list. The result is \<open>None\<close> when the
  call does not return: a reference that denotes no object, or a store whose closures
  refer to each other in a cycle.
\<close>

partial_function (option) callFillAll :: "heap \<Rightarrow> fillAllFn \<Rightarrow> jsval list \<Rightarrow> string option" where
  "callFillAll h f args =
     (case f of
        FillEmpty \<Rightarrow> Some ''''
      | FillSeg route segment \<Rightarrow>
          do { obj \<leftarrow> deref h route;
               s \<leftarrow> callFillAll h (fillAll obj) args;
               Some (s @ ''/'' @ segment) }
      | FillParam route \<Rightarrow>
          do { obj \<leftarrow> deref h route;
               s \<leftarrow> callFillAll h (fillAll obj) (restArgs args);
               Some (s @ ''/'' @ ToString (firstArg args)) }
      | FillOpt route \<Rightarrow>
          (if firstArg args \<noteq> Undefined
           then do { obj \<leftarrow> deref h route;
                     s \<leftarrow> callFillAll h (fillAll obj) (restArgs args);
                     Some (s @ ''/'' @ ToString (firstArg args)) }
           else do { obj \<leftarrow> deref h route;
                     callFillAll h (fillAll obj) (restArgs args) }))"

text \<open>
  Calling a \<open>filled\<close> function with one argument. \<open>Some (Inl TypeError)\<close> is the
  exception JavaScript raises when a string is called as a function.
\<close>

partial_function (option) callFn :: "heap \<Rightarrow> fn \<Rightarrow> jsval \<Rightarrow> (error + FilledType) option" where
  "callFn h f arg =
     (case f of
        CurryStr routeArgs \<Rightarrow>
          (if arg \<noteq> Undefined
           then Some (Inr (FStr (routeArgs @ ''/'' @ ToString arg)))
           else Some (Inr (FStr routeArgs)))
      | CurryFun routeArgs \<Rightarrow>
          (if arg \<noteq> Undefined
           then do { nestedArgs \<leftarrow> callFn h routeArgs arg;
                     Some (case nestedArgs of
                             Inl e \<Rightarrow> Inl e
                           | Inr v \<Rightarrow> Inr (FFun (makeFilledCurry v))) }
           else Some (Inr (FFun routeArgs)))
      | SegFilled route segment \<Rightarrow>
          do { obj \<leftarrow> deref h route;
               case filled obj of
                 FStr _ \<Rightarrow> Some (Inl TypeError)
               | FFun g \<Rightarrow>
                   do { res \<leftarrow> callFn h g arg;
                        Some (case res of
                                Inl e \<Rightarrow> Inl e
                              | Inr v \<Rightarrow> Inr (FStr (filledToString v @ ''/'' @ segment))) } })"

declare callFillAll.simps [code]

declare callFn.simps [code]

text \<open>
  The caller's chain \<open>filled(v1)(v2)...\<close>: each value is passed to what the previous call
  returned. Calling a string raises \<open>TypeError\<close>.
\<close>

fun callChain :: "heap \<Rightarrow> FilledType \<Rightarrow> jsval list \<Rightarrow> (error + FilledType) option" where
  "callChain h x [] = Some (Inr x)"
| "callChain h (FStr s) (v # vs) = Some (Inl TypeError)"
| "callChain h (FFun f) (v # vs) =
     (case callFn h f v of
        None \<Rightarrow> None
      | Some (Inl e) \<Rightarrow> Some (Inl e)
      | Some (Inr x) \<Rightarrow> callChain h x vs)"

subsection \<open>The operations\<close>

text \<open>\<open>createRoute\<close> (lines 27-34).\<close>

definition createRoute :: "heap \<Rightarrow> ref \<times> heap" where
  "createRoute h =
     alloc h \<lparr> template = '''', parameters = Undefined, fillAll = FillEmpty, filled = FStr '''' \<rparr>"

text \<open>
  \<open>addSegment\<close> (lines 62-80). The operations read the object their argument refers to;
  the result is \<open>None\<close> when the reference denotes no object of the store.
\<close>

definition addSegment :: "string \<Rightarrow> ref \<Rightarrow> heap \<Rightarrow> (ref \<times> heap) option" where
  "addSegment segment route h =
     do { obj \<leftarrow> deref h route;
          Some (alloc h
            \<lparr> template = template obj @ ''/'' @ segment,
              parameters = Undefined,
              fillAll = FillSeg route segment,
              filled = (case filled obj of
                          FStr s \<Rightarrow> FStr (s @ ''/'' @ segment)
                        | FFun _ \<Rightarrow> FFun (SegFilled route segment)) \<rparr>) }"

text \<open>\<open>addParameter\<close> (lines 87-101).\<close>

definition addParameter :: "string \<Rightarrow> ref \<Rightarrow> heap \<Rightarrow> (ref \<times> heap) option" where
  "addParameter name route h =
     do { obj \<leftarrow> deref h route;
          Some (alloc h
            \<lparr> template = template obj @ ''/:'' @ name,
              parameters = Undefined,
              fillAll = FillParam route,
              filled = FFun (makeFilledCurry (filled obj)) \<rparr>) }"

text \<open>\<open>addOptionalParameter\<close> (lines 108-122).\<close>

definition addOptionalParameter :: "string \<Rightarrow> ref \<Rightarrow> heap \<Rightarrow> (ref \<times> heap) option" where
  "addOptionalParameter name route h =
     do { obj \<leftarrow> deref h route;
          Some (alloc h
            \<lparr> template = template obj @ ''/:'' @ name @ ''?'',
              parameters = Undefined,
              fillAll = FillOpt route,
              filled = FFun (makeFilledCurry (filled obj)) \<rparr>) }"

subsection \<open>The builder\<close>

text \<open>
  \<open>TypedRouteBuilder\<close> (lines 125-174) holds one reference, \<open>_typedRoute\<close>, which every
  chained call reassigns; each method returns the builder itself.
\<close>

record TypedRouteBuilder =
  typedRoute :: ref

definition newTypedRouteBuilder :: "ref option \<Rightarrow> heap \<Rightarrow> TypedRouteBuilder \<times> heap" where
  "newTypedRouteBuilder arg h =
     (case arg of
        Some r \<Rightarrow> (\<lparr> typedRoute = r \<rparr>, h)
      | None \<Rightarrow> (let (r, h') = createRoute h in (\<lparr> typedRoute = r \<rparr>, h')))"

definition segment :: "string \<Rightarrow> TypedRouteBuilder \<Rightarrow> heap \<Rightarrow> (TypedRouteBuilder \<times> heap) option" where
  "segment s this h =
     do { (r, h') \<leftarrow> addSegment s (typedRoute this) h;
          Some (this\<lparr> typedRoute := r \<rparr>, h') }"

definition parameter :: "string \<Rightarrow> TypedRouteBuilder \<Rightarrow> heap \<Rightarrow> (TypedRouteBuilder \<times> heap) option" where
  "parameter name this h =
     do { (r, h') \<leftarrow> addParameter name (typedRoute this) h;
          Some (this\<lparr> typedRoute := r \<rparr>, h') }"

definition optionalParameter :: "string \<Rightarrow> TypedRouteBuilder \<Rightarrow> heap \<Rightarrow> (TypedRouteBuilder \<times> heap) option" where
  "optionalParameter name this h =
     do { (r, h') \<leftarrow> addOptionalParameter name (typedRoute this) h;
          Some (this\<lparr> typedRoute := r \<rparr>, h') }"

definition build :: "TypedRouteBuilder \<Rightarrow> ref" where
  "build this = typedRoute this"

subsection \<open>Sequences of append operations\<close>

text \<open>
  A step names one append operation with its argument. \<open>applyOp\<close> is the standalone
  operation of a step, \<open>composeOps\<close> applies a sequence of steps to a route in order;
  \<open>applyMethod\<close> and \<open>chainMethods\<close> do the same through the methods of a builder.
\<close>

datatype step = Segment string | Parameter string | OptionalParameter string

fun applyOp :: "step \<Rightarrow> ref \<Rightarrow> heap \<Rightarrow> (ref \<times> heap) option" where
  "applyOp (Segment s) = addSegment s"
| "applyOp (Parameter name) = addParameter name"
| "applyOp (OptionalParameter name) = addOptionalParameter name"

fun composeOps :: "step list \<Rightarrow> ref \<times> heap \<Rightarrow> (ref \<times> heap) option" where
  "composeOps [] rh = Some rh"
| "composeOps (st # sts) (r, h) = applyOp st r h \<bind> composeOps sts"

fun applyMethod :: "step \<Rightarrow> TypedRouteBuilder \<Rightarrow> heap \<Rightarrow> (TypedRouteBuilder \<times> heap) option" where
  "applyMethod (Segment s) = segment s"
| "applyMethod (Parameter name) = parameter name"
| "applyMethod (OptionalParameter name) = optionalParameter name"

fun chainMethods :: "step list \<Rightarrow> TypedRouteBuilder \<times> heap \<Rightarrow> (TypedRouteBuilder \<times> heap) option" where
  "chainMethods [] bh = Some bh"
| "chainMethods (st # sts) (b, h) = applyMethod st b h \<bind> chainMethods sts"

text \<open>The template text the specification gives for a step.\<close>

fun stepText :: "step \<Rightarrow> string" where
  "stepText (Segment s) = ''/'' @ s"
| "stepText (Parameter name) = ''/:'' @ name"
| "stepText (OptionalParameter name) = ''/:'' @ name @ ''?''"

subsection \<open>Well-formed stores\<close>

text \<open>
  A closure captures a route that exists when the closure is created, so in every store
  the module builds, an object refers only to objects allocated before it.
\<close>

fun fn_below :: "nat \<Rightarrow> fn \<Rightarrow> bool" where
  "fn_below k (CurryStr s) = True"
| "fn_below k (CurryFun f) = fn_below k f"
| "fn_below k (SegFilled r s) = (r < k)"

fun filled_below :: "nat \<Rightarrow> FilledType \<Rightarrow> bool" where
  "filled_below k (FStr s) = True"
| "filled_below k (FFun f) = fn_below k f"

fun fillAll_below :: "nat \<Rightarrow> fillAllFn \<Rightarrow> bool" where
  "fillAll_below k FillEmpty = True"
| "fillAll_below k (FillSeg r s) = (r < k)"
| "fillAll_below k (FillParam r) = (r < k)"
| "fillAll_below k (FillOpt r) = (r < k)"

definition route_below :: "nat \<Rightarrow> ITypedRoute \<Rightarrow> bool" where
  "route_below k obj = (fillAll_below k (fillAll obj) \<and> filled_below k (filled obj))"

fun wf_from :: "nat \<Rightarrow> heap \<Rightarrow> bool" where
  "wf_from k [] = True"
| "wf_from k (obj # h) = (route_below k obj \<and> wf_from (Suc k) h)"

definition wf_heap :: "heap \<Rightarrow> bool" where
  "wf_heap h = wf_from 0 h"

subsection \<open>Building a route through the builder\<close>

text \<open>
  \<open>new TypedRouteBuilder()\<close>, the chained method calls of a sequence of steps, then
  \<open>build()\<close>.
\<close>

definition buildWithBuilder :: "step list \<Rightarrow> heap \<Rightarrow> (ref \<times> heap) option" where
  "buildWithBuilder steps h =
     map_option (\<lambda>(b, h'). (build b, h')) (chainMethods steps (newTypedRouteBuilder None h))"

subsection \<open>Counting parameters and curried steps\<close>

text \<open>
  \<open>paramCount\<close> is the number of parameters, required or optional, a sequence of steps
  adds. \<open>callsToString h x vs\<close> is the number of calls of the chain \<open>x(v1)(v2)...\<close>
  after which the filler is a plain string; it is \<open>None\<close> when the values run out, or a
  call fails, before a string is reached.
\<close>

fun isParameter :: "step \<Rightarrow> bool" where
  "isParameter (Segment s) = False"
| "isParameter (Parameter name) = True"
| "isParameter (OptionalParameter name) = True"

definition paramCount :: "step list \<Rightarrow> nat" where
  "paramCount steps = length (filter isParameter steps)"

fun callsToString :: "heap \<Rightarrow> FilledType \<Rightarrow> jsval list \<Rightarrow> nat option" where
  "callsToString h (FStr s) vs = Some 0"
| "callsToString h (FFun f) [] = None"
| "callsToString h (FFun f) (v # vs) =
     (case callFn h f v of
        Some (Inr x) \<Rightarrow> map_option Suc (callsToString h x vs)
      | _ \<Rightarrow> None)"

text \<open>
  \<open>segmentsEarly n steps\<close>: in \<open>steps\<close>, applied to a route that has \<open>n\<close> parameters,
  no segment is added while two or more parameters are pending.
\<close>

fun segmentsEarly :: "nat \<Rightarrow> step list \<Rightarrow> bool" where
  "segmentsEarly n [] = True"
| "segmentsEarly n (Segment s # sts) = (n \<le> 1 \<and> segmentsEarly n sts)"
| "segmentsEarly n (Parameter name # sts) = segmentsEarly (Suc n) sts"
| "segmentsEarly n (OptionalParameter name # sts) = segmentsEarly (Suc n) sts"

subsection \<open>The path a template describes\<close>

text \<open>
  \<open>flatText steps args\<close> is the template of \<open>steps\<close> with every parameter replaced by
  its value, where \<open>args\<close> lists the values in reverse declaration order: the value of a
  parameter is the argument whose position is the number of parameters declared after
  it, and \<open>undefined\<close> when there is no such argument. A required parameter is rendered
  as \<open>/value\<close> whatever the value; an optional one is left out when the value is
  \<open>undefined\<close>.
\<close>

definition argAt :: "nat \<Rightarrow> jsval list \<Rightarrow> jsval" where
  "argAt i args = (if i < length args then args ! i else Undefined)"

fun flatText :: "step list \<Rightarrow> jsval list \<Rightarrow> string" where
  "flatText [] args = ''''"
| "flatText (Segment s # sts) args = ''/'' @ s @ flatText sts args"
| "flatText (Parameter name # sts) args =
     ''/'' @ ToString (argAt (paramCount sts) args) @ flatText sts args"
| "flatText (OptionalParameter name # sts) args =
     (if argAt (paramCount sts) args \<noteq> Undefined
      then ''/'' @ ToString (argAt (paramCount sts) args)
      else '''') @ flatText sts args"

subsection \<open>Observing a result, and closures that behave alike\<close>

text \<open>
  What a caller can observe of the result of a chain of calls: that it did not return,
  the exception, the string, or that it is a function, of which the source text is
  observable at once and the behaviour by calling it further.
\<close>

datatype observation = Diverges | Raises error | IsString string | IsFunction string

fun observe :: "(error + FilledType) option \<Rightarrow> observation" where
  "observe None = Diverges"
| "observe (Some (Inl e)) = Raises e"
| "observe (Some (Inr (FStr s))) = IsString s"
| "observe (Some (Inr (FFun f))) = IsFunction (fnSource f)"

text \<open>
  Two closures, each in its own store, are alike when they come from the same arrow
  function, hold the same strings, and the routes they refer to hold closures that are
  alike.
\<close>

inductive simFillAll :: "heap \<Rightarrow> heap \<Rightarrow> fillAllFn \<Rightarrow> fillAllFn \<Rightarrow> bool"
  for h1 h2 where
  simFillEmpty: "simFillAll h1 h2 FillEmpty FillEmpty"
| simFillSeg: "deref h1 r1 = Some o1 \<Longrightarrow> deref h2 r2 = Some o2 \<Longrightarrow>
     simFillAll h1 h2 (fillAll o1) (fillAll o2) \<Longrightarrow>
     simFillAll h1 h2 (FillSeg r1 seg) (FillSeg r2 seg)"
| simFillParam: "deref h1 r1 = Some o1 \<Longrightarrow> deref h2 r2 = Some o2 \<Longrightarrow>
     simFillAll h1 h2 (fillAll o1) (fillAll o2) \<Longrightarrow>
     simFillAll h1 h2 (FillParam r1) (FillParam r2)"
| simFillOpt: "deref h1 r1 = Some o1 \<Longrightarrow> deref h2 r2 = Some o2 \<Longrightarrow>
     simFillAll h1 h2 (fillAll o1) (fillAll o2) \<Longrightarrow>
     simFillAll h1 h2 (FillOpt r1) (FillOpt r2)"

inductive simFn :: "heap \<Rightarrow> heap \<Rightarrow> fn \<Rightarrow> fn \<Rightarrow> bool"
  for h1 h2 where
  simCurryStr: "simFn h1 h2 (CurryStr s) (CurryStr s)"
| simCurryFun: "simFn h1 h2 f g \<Longrightarrow> simFn h1 h2 (CurryFun f) (CurryFun g)"
| simSegStr: "deref h1 r1 = Some o1 \<Longrightarrow> deref h2 r2 = Some o2 \<Longrightarrow>
     filled o1 = FStr s1 \<Longrightarrow> filled o2 = FStr s2 \<Longrightarrow>
     simFn h1 h2 (SegFilled r1 seg) (SegFilled r2 seg)"
| simSegFun: "deref h1 r1 = Some o1 \<Longrightarrow> deref h2 r2 = Some o2 \<Longrightarrow>
     filled o1 = FFun f \<Longrightarrow> filled o2 = FFun g \<Longrightarrow> simFn h1 h2 f g \<Longrightarrow>
     simFn h1 h2 (SegFilled r1 seg) (SegFilled r2 seg)"

inductive simFilled :: "heap \<Rightarrow> heap \<Rightarrow> FilledType \<Rightarrow> FilledType \<Rightarrow> bool"
  for h1 h2 where
  simFStr: "simFilled h1 h2 (FStr s) (FStr s)"
| simFFun: "simFn h1 h2 f g \<Longrightarrow> simFilled h1 h2 (FFun f) (FFun g)"

definition simRoute :: "heap \<Rightarrow> heap \<Rightarrow> ITypedRoute \<Rightarrow> ITypedRoute \<Rightarrow> bool" where
  "simRoute h1 h2 o1 o2 =
     (template o1 = template o2 \<and> simFillAll h1 h2 (fillAll o1) (fillAll o2)
      \<and> simFilled h1 h2 (filled o1) (filled o2))"

section \<open>Basic facts\<close>

lemma deref_append_old:
  "deref h r = Some obj \<Longrightarrow> deref (h @ ys) r = Some obj"
  by (auto simp add: deref_def nth_append split: if_splits)

lemma deref_append_new:
  "deref (h @ [obj]) (length h) = Some obj"
  by (simp add: deref_def)

lemma composeOps_snoc:
  "composeOps (sts @ [st]) rh = composeOps sts rh \<bind> (\<lambda>(r, h). applyOp st r h)"
proof (induction sts arbitrary: rh)
  case Nil
  obtain r h where rh: "rh = (r, h)" by (cases rh)
  show ?case
    by (cases "applyOp st r h") (simp_all add: rh)
next
  case (Cons a sts)
  obtain r h where rh: "rh = (r, h)" by (cases rh)
  show ?case
    by (cases "applyOp a r h") (simp_all add: rh Cons.IH)
qed

lemma applyOp_result:
  assumes "deref h r = Some obj"
  shows "\<exists>obj'. applyOp st r h = Some (length h, h @ [obj']) \<and> template obj' = template obj @ stepText st"
  using assms
  by (cases st) (simp_all add: addSegment_def addParameter_def addOptionalParameter_def alloc_def)

lemma applyOp_alloc:
  assumes "applyOp st r h = Some (r', h')"
  shows "\<exists>obj obj'. deref h r = Some obj \<and> r' = length h \<and> h' = h @ [obj'] \<and> deref h' r' = Some obj'"
  using assms
  by (cases st; cases "deref h r")
     (auto simp add: addSegment_def addParameter_def addOptionalParameter_def alloc_def deref_def)

lemma addSegment_result:
  assumes "deref h r = Some obj" and "addSegment seg r h = Some (r', h')"
  shows "r' = length h \<and> h' = h @ [\<lparr> template = template obj @ ''/'' @ seg, parameters = Undefined,
            fillAll = FillSeg r seg,
            filled = (case filled obj of FStr s \<Rightarrow> FStr (s @ ''/'' @ seg)
                      | FFun _ \<Rightarrow> FFun (SegFilled r seg)) \<rparr>]"
  using assms by (auto simp add: addSegment_def alloc_def)

lemma addParameter_result:
  assumes "deref h r = Some obj" and "addParameter name r h = Some (r', h')"
  shows "r' = length h \<and> h' = h @ [\<lparr> template = template obj @ ''/:'' @ name, parameters = Undefined,
            fillAll = FillParam r, filled = FFun (makeFilledCurry (filled obj)) \<rparr>]"
  using assms by (auto simp add: addParameter_def alloc_def)

lemma addOptionalParameter_result:
  assumes "deref h r = Some obj" and "addOptionalParameter name r h = Some (r', h')"
  shows "r' = length h \<and> h' = h @ [\<lparr> template = template obj @ ''/:'' @ name @ ''?'', parameters = Undefined,
            fillAll = FillOpt r, filled = FFun (makeFilledCurry (filled obj)) \<rparr>]"
  using assms by (auto simp add: addOptionalParameter_def alloc_def)

subsection \<open>One equation per arrow function\<close>

lemma callFillAll_FillEmpty [simp]: "callFillAll h FillEmpty args = Some ''''"
  by (simp add: callFillAll.simps)

lemma callFillAll_FillSeg [simp]:
  "callFillAll h (FillSeg route seg) args =
     do { obj \<leftarrow> deref h route;
          s \<leftarrow> callFillAll h (fillAll obj) args;
          Some (s @ ''/'' @ seg) }"
  by (simp add: callFillAll.simps [of h "FillSeg route seg"])

lemma callFillAll_FillParam [simp]:
  "callFillAll h (FillParam route) args =
     do { obj \<leftarrow> deref h route;
          s \<leftarrow> callFillAll h (fillAll obj) (restArgs args);
          Some (s @ ''/'' @ ToString (firstArg args)) }"
  by (simp add: callFillAll.simps [of h "FillParam route"])

lemma callFillAll_FillOpt [simp]:
  "callFillAll h (FillOpt route) args =
     (if firstArg args \<noteq> Undefined
      then do { obj \<leftarrow> deref h route;
                s \<leftarrow> callFillAll h (fillAll obj) (restArgs args);
                Some (s @ ''/'' @ ToString (firstArg args)) }
      else do { obj \<leftarrow> deref h route;
                callFillAll h (fillAll obj) (restArgs args) })"
  by (simp add: callFillAll.simps [of h "FillOpt route"])

lemma callFn_CurryStr [simp]:
  "callFn h (CurryStr routeArgs) arg =
     (if arg \<noteq> Undefined
      then Some (Inr (FStr (routeArgs @ ''/'' @ ToString arg)))
      else Some (Inr (FStr routeArgs)))"
  by (simp add: callFn.simps [of h "CurryStr routeArgs"])

lemma callFn_CurryFun [simp]:
  "callFn h (CurryFun routeArgs) arg =
     (if arg \<noteq> Undefined
      then do { nestedArgs \<leftarrow> callFn h routeArgs arg;
                Some (case nestedArgs of
                        Inl e \<Rightarrow> Inl e
                      | Inr v \<Rightarrow> Inr (FFun (makeFilledCurry v))) }
      else Some (Inr (FFun routeArgs)))"
  by (simp add: callFn.simps [of h "CurryFun routeArgs"])

lemma callFn_SegFilled [simp]:
  "callFn h (SegFilled route seg) arg =
     do { obj \<leftarrow> deref h route;
          case filled obj of
            FStr _ \<Rightarrow> Some (Inl TypeError)
          | FFun g \<Rightarrow>
              do { res \<leftarrow> callFn h g arg;
                   Some (case res of
                           Inl e \<Rightarrow> Inl e
                         | Inr v \<Rightarrow> Inr (FStr (filledToString v @ ''/'' @ seg))) } }"
  by (simp add: callFn.simps [of h "SegFilled route seg"])

section \<open>Facts about sequences of operations\<close>

lemma composeOps_template:
  assumes "deref h r = Some obj"
  shows "\<exists>r' h' obj'. composeOps steps (r, h) = Some (r', h') \<and> deref h' r' = Some obj'
           \<and> template obj' = template obj @ concat (map stepText steps)"
  using assms
proof (induction steps arbitrary: r h obj)
  case Nil
  then show ?case by simp
next
  case (Cons st steps)
  from applyOp_result [OF Cons.prems, of st]
  obtain obj1 where ap: "applyOp st r h = Some (length h, h @ [obj1])"
    and t1: "template obj1 = template obj @ stepText st" by blast
  have d1: "deref (h @ [obj1]) (length h) = Some obj1" by (simp add: deref_def)
  from Cons.IH [OF d1] obtain r' h' obj' where
    "composeOps steps (length h, h @ [obj1]) = Some (r', h')" "deref h' r' = Some obj'"
    "template obj' = template obj1 @ concat (map stepText steps)" by blast
  then show ?case using ap t1 by simp
qed

section \<open>The template\<close>

text \<open>
  Claim C7. For every sequence of append operations applied in order to the route
  \<open>createRoute()\<close> returns, the operations succeed and the \<open>template\<close> of the
  resulting route is the concatenation, in application order, of \<open>/segment\<close> for each
  segment, \<open>/:name\<close> for each required parameter and \<open>/:name?\<close> for each optional
  parameter; for the empty sequence it is the empty string.
\<close>

theorem template_is_concatenation:
  "\<exists>r h' obj. composeOps steps (createRoute h) = Some (r, h') \<and> deref h' r = Some obj
      \<and> template obj = concat (map stepText steps)"
proof -
  have "deref (h @ [\<lparr> template = '''', parameters = Undefined, fillAll = FillEmpty, filled = FStr '''' \<rparr>]) (length h)
      = Some \<lparr> template = '''', parameters = Undefined, fillAll = FillEmpty, filled = FStr '''' \<rparr>"
    by (simp add: deref_def)
  from composeOps_template [OF this, of steps] show ?thesis
    by (simp add: createRoute_def alloc_def)
qed

section \<open>Argument order of the two fillers\<close>

text \<open>
  Claim C2. For the route \<open>empty \<rightarrow> addParameter a \<rightarrow> addParameter b\<close>
  the curried filler takes the values in declaration order and the flat filler takes them
  in reverse declaration order: for defined values, \<open>filled(v1)\<close> is a function,
  \<open>filled(v1)(v2)\<close> is \<open>/v1/v2\<close>, and \<open>fillAll(v2, v1)\<close> is \<open>/v1/v2\<close> as well.
  The witness is the specification's example: \<open>filled(1)(2) = '/1/2'\<close> and
  \<open>fillAll(2, 1) = '/1/2'\<close>.
\<close>

theorem two_parameters_order:
  assumes "v1 \<noteq> Undefined" and "v2 \<noteq> Undefined"
  shows "\<exists>r h' obj f g.
      composeOps [Parameter a, Parameter b] (createRoute h) = Some (r, h')
    \<and> deref h' r = Some obj
    \<and> filled obj = FFun f
    \<and> callFn h' f v1 = Some (Inr (FFun g))
    \<and> callFn h' g v2 = Some (Inr (FStr (''/'' @ ToString v1 @ ''/'' @ ToString v2)))
    \<and> callFillAll h' (fillAll obj) [v2, v1] = Some (''/'' @ ToString v1 @ ''/'' @ ToString v2)"
  using assms
  by (simp add: createRoute_def alloc_def addParameter_def deref_def nth_append)

theorem two_parameters_order_witness:
  "JNum 1 \<noteq> Undefined \<and> JNum 2 \<noteq> Undefined \<and> (\<exists>r h' obj f g.
      composeOps [Parameter ''a'', Parameter ''b''] (createRoute []) = Some (r, h')
    \<and> deref h' r = Some obj
    \<and> filled obj = FFun f
    \<and> callFn h' f (JNum 1) = Some (Inr (FFun g))
    \<and> callFn h' g (JNum 2) = Some (Inr (FStr ''/1/2''))
    \<and> callFillAll h' (fillAll obj) [JNum 2, JNum 1] = Some ''/1/2'')"
  using two_parameters_order [of "JNum 1" "JNum 2" "''a''" "''b''" "[]"]
  by (simp add: show_nat.simps digit_def)

section \<open>Omitting an optional parameter\<close>

text \<open>
  Claim C4. For the route \<open>empty \<rightarrow> addSegment s \<rightarrow> addOptionalParameter name\<close>:
  \<open>filled(undefined)\<close> is \<open>/s\<close>, \<open>filled(v)\<close> is \<open>/s/v\<close> for a defined \<open>v\<close>,
  \<open>fillAll(undefined)\<close> is \<open>/s\<close> and \<open>fillAll(w)\<close> is \<open>/s/w\<close> for a defined
  \<open>w\<close>: passing \<open>undefined\<close> leaves the parameter's path component out in both
  fillers. The witness is the specification's example, with \<open>list\<close>, \<open>page\<close>, 5 and 7.
\<close>

theorem optional_parameter_omission:
  assumes "v \<noteq> Undefined" and "w \<noteq> Undefined"
  shows "\<exists>r h' obj f.
      composeOps [Segment s, OptionalParameter name] (createRoute h) = Some (r, h')
    \<and> deref h' r = Some obj
    \<and> filled obj = FFun f
    \<and> callFn h' f Undefined = Some (Inr (FStr (''/'' @ s)))
    \<and> callFn h' f v = Some (Inr (FStr (''/'' @ s @ ''/'' @ ToString v)))
    \<and> callFillAll h' (fillAll obj) [Undefined] = Some (''/'' @ s)
    \<and> callFillAll h' (fillAll obj) [w] = Some (''/'' @ s @ ''/'' @ ToString w)"
  using assms
  by (simp add: createRoute_def alloc_def addSegment_def addOptionalParameter_def deref_def nth_append)

theorem optional_parameter_omission_witness:
  "JNum 5 \<noteq> Undefined \<and> JNum 7 \<noteq> Undefined \<and> (\<exists>r h' obj f.
      composeOps [Segment ''list'', OptionalParameter ''page''] (createRoute []) = Some (r, h')
    \<and> deref h' r = Some obj
    \<and> filled obj = FFun f
    \<and> callFn h' f Undefined = Some (Inr (FStr ''/list''))
    \<and> callFn h' f (JNum 5) = Some (Inr (FStr ''/list/5''))
    \<and> callFillAll h' (fillAll obj) [Undefined] = Some ''/list''
    \<and> callFillAll h' (fillAll obj) [JNum 7] = Some ''/list/7'')"
  using optional_parameter_omission [of "JNum 5" "JNum 7" "''list''" "''page''" "[]"]
  by (simp add: show_nat.simps digit_def)

section \<open>The curry deferral\<close>

lemma callChain_snoc_curry:
  assumes "Undefined \<notin> set vs"
    and "callChain h x vs = Some (Inr (FStr s))"
  shows "callChain h (FFun (makeFilledCurry x)) (vs @ [w]) =
           Some (Inr (FStr (if w \<noteq> Undefined then s @ ''/'' @ ToString w else s)))"
  using assms
proof (induction vs arbitrary: x)
  case Nil
  then show ?case by simp
next
  case (Cons v vs)
  from Cons.prems(2) obtain g where x: "x = FFun g"
    by (cases x) simp_all
  from Cons.prems(2) x obtain x' where c: "callFn h g v = Some (Inr x')"
    and r: "callChain h x' vs = Some (Inr (FStr s))"
    by (auto split: option.splits sum.splits)
  from Cons.prems(1) have v: "v \<noteq> Undefined" and vs: "Undefined \<notin> set vs" by auto
  from Cons.IH [OF vs r] show ?case
    by (simp add: x c v)
qed

text \<open>
  What holds of Claim C9, the mechanism. When a parameter (required or optional) is added
  to a route whose \<open>filled\<close> is a pending function \<open>inner\<close>, the new \<open>filled\<close> is the
  function \<open>makeFilledCurry\<close> returns for \<open>inner\<close>. Called with a defined argument it
  calls \<open>inner\<close> with that argument and applies \<open>makeFilledCurry\<close> to the result; called
  with \<open>undefined\<close> it returns \<open>inner\<close> itself, so that the rest of the chain is the
  chain of the route before the parameter was added, whatever that chain does with the
  values that follow.
\<close>

lemma curry_deferral_recursive_case:
  assumes "deref h r = Some obj"
    and "filled obj = FFun inner"
    and "(if optional then addOptionalParameter name r h else addParameter name r h) = Some (r', h')"
  shows "\<exists>obj' f.
      deref h' r' = Some obj' \<and> filled obj' = FFun f \<and> f = makeFilledCurry (FFun inner)
    \<and> callFn h' f arg =
        (if arg \<noteq> Undefined
         then callFn h' inner arg \<bind>
                (\<lambda>nestedArgs. Some (case nestedArgs of
                                       Inl e \<Rightarrow> Inl e
                                     | Inr v \<Rightarrow> Inr (FFun (makeFilledCurry v))))
         else Some (Inr (FFun inner)))
    \<and> callChain h' (filled obj') (Undefined # vs) = callChain h' (filled obj) vs
    \<and> callChain h' (FFun (makeFilledCurry x)) (Undefined # vs) = callChain h' x vs"
proof -
  have x: "callChain h' (FFun (makeFilledCurry x)) (Undefined # vs) = callChain h' x vs"
    by (cases x) simp_all
  show ?thesis
  proof (cases optional)
    case True
    with assms addOptionalParameter_result [OF assms(1), of name r' h'] x show ?thesis
      by (simp add: deref_append_new)
  next
    case False
    with assms addParameter_result [OF assms(1), of name r' h'] x show ?thesis
      by (simp add: deref_append_new)
  qed
qed

lemma curry_deferral_recursive_case_example:
  "\<exists>r h obj inner r' h' obj'.
      composeOps [Parameter ''a''] (createRoute []) = Some (r, h)
    \<and> deref h r = Some obj \<and> filled obj = FFun inner
    \<and> addOptionalParameter ''b'' r h = Some (r', h')
    \<and> deref h' r' = Some obj' \<and> filled obj' = FFun (makeFilledCurry (FFun inner))
    \<and> callFn h' (makeFilledCurry (FFun inner)) (JNum 1) = Some (Inr (FFun (CurryStr ''/1'')))
    \<and> callFn h' (makeFilledCurry (FFun inner)) Undefined = Some (Inr (FFun inner))
    \<and> callChain h' (filled obj') [Undefined, JNum 2] = Some (Inr (FStr ''/2''))
    \<and> callChain h' (FFun (makeFilledCurry (FStr ''/1''))) [Undefined] = Some (Inr (FStr ''/1''))"
  using curry_deferral_recursive_case
    [of "[\<lparr> template = '''', parameters = Undefined, fillAll = FillEmpty, filled = FStr '''' \<rparr>,
          \<lparr> template = ''/:a'', parameters = Undefined, fillAll = FillParam 0, filled = FFun (CurryStr '''') \<rparr>]"
        1 "\<lparr> template = ''/:a'', parameters = Undefined, fillAll = FillParam 0, filled = FFun (CurryStr '''') \<rparr>"
        "CurryStr ''''" True "''b''" 2
        "[\<lparr> template = '''', parameters = Undefined, fillAll = FillEmpty, filled = FStr '''' \<rparr>,
          \<lparr> template = ''/:a'', parameters = Undefined, fillAll = FillParam 0, filled = FFun (CurryStr '''') \<rparr>,
          \<lparr> template = ''/:a/:b?'', parameters = Undefined, fillAll = FillOpt 1, filled = FFun (CurryFun (CurryStr '''')) \<rparr>]"
        "JNum 1" "[JNum 2]" "FStr ''/1''"]
  by (simp add: createRoute_def alloc_def addParameter_def addOptionalParameter_def deref_def
        show_nat.simps digit_def)

section \<open>Absent and present values\<close>

text \<open>
  What holds of Claim C5 at the operation that adds the parameter. \<open>fillAll\<close> called
  with \<open>undefined\<close> in the parameter's position returns what the previous \<open>fillAll\<close>
  returns on the remaining arguments followed by the literal text \<open>/undefined\<close>, while
  the curried filler, once the earlier pending parameters have been given defined values
  \<open>vs\<close> and have produced the string \<open>s\<close>, returns \<open>s\<close> itself when the
  parameter's own step is called with \<open>undefined\<close>: the segment is left out.
\<close>

lemma required_parameter_undefined:
  assumes "deref h r = Some obj"
    and "addParameter name r h = Some (r', h')"
    and "Undefined \<notin> set vs"
    and "callChain h' (filled obj) vs = Some (Inr (FStr s))"
  shows "\<exists>obj'.
      deref h' r' = Some obj'
    \<and> callFillAll h' (fillAll obj') (Undefined # rest) =
        callFillAll h' (fillAll obj) rest \<bind> (\<lambda>t. Some (t @ ''/undefined''))
    \<and> callChain h' (filled obj') (vs @ [Undefined]) = Some (Inr (FStr s))"
  using assms addParameter_result [OF assms(1,2)] callChain_snoc_curry [OF assms(3,4), of Undefined]
  by (simp add: deref_append_new deref_append_old)

lemma required_parameter_undefined_example:
  "\<exists>r h obj r' h' obj'.
      composeOps [Parameter ''a''] (createRoute []) = Some (r, h)
    \<and> deref h r = Some obj
    \<and> addParameter ''b'' r h = Some (r', h')
    \<and> Undefined \<notin> set [JNum 1]
    \<and> callChain h' (filled obj) [JNum 1] = Some (Inr (FStr ''/1''))
    \<and> deref h' r' = Some obj'
    \<and> callFillAll h' (fillAll obj') [Undefined, JNum 1] = Some ''/1/undefined''
    \<and> callChain h' (filled obj') [JNum 1, Undefined] = Some (Inr (FStr ''/1''))"
  using required_parameter_undefined
    [of "[\<lparr> template = '''', parameters = Undefined, fillAll = FillEmpty, filled = FStr '''' \<rparr>,
          \<lparr> template = ''/:a'', parameters = Undefined, fillAll = FillParam 0, filled = FFun (CurryStr '''') \<rparr>]"
        1 "\<lparr> template = ''/:a'', parameters = Undefined, fillAll = FillParam 0, filled = FFun (CurryStr '''') \<rparr>"
        "''b''" 2
        "[\<lparr> template = '''', parameters = Undefined, fillAll = FillEmpty, filled = FStr '''' \<rparr>,
          \<lparr> template = ''/:a'', parameters = Undefined, fillAll = FillParam 0, filled = FFun (CurryStr '''') \<rparr>,
          \<lparr> template = ''/:a/:b'', parameters = Undefined, fillAll = FillParam 1, filled = FFun (CurryFun (CurryStr '''')) \<rparr>]"
        "[JNum 1]" "''/1''" "[JNum 1]"]
  by (simp add: createRoute_def alloc_def addParameter_def deref_def show_nat.simps digit_def)

text \<open>
  What holds of Claim C10 at the operation that adds the parameter. \<open>fillAll\<close> called
  with a value \<open>v\<close> in the parameter's position appends \<open>/v\<close> to what the previous
  \<open>fillAll\<close> returns on the remaining arguments when \<open>v\<close> is not \<open>undefined\<close>, and
  appends nothing when it is; the parameter's step of the curried filler, reached once the
  earlier pending parameters have produced the string \<open>s\<close>, returns \<open>s/v\<close> when
  \<open>v\<close> is not \<open>undefined\<close> and \<open>s\<close> when it is. \<open>null\<close> is a present value and
  is interpolated as \<open>null\<close>.
\<close>

lemma optional_parameter_absence_marker:
  assumes "deref h r = Some obj"
    and "addOptionalParameter name r h = Some (r', h')"
    and "Undefined \<notin> set vs"
    and "callChain h' (filled obj) vs = Some (Inr (FStr s))"
  shows "\<exists>obj'.
      deref h' r' = Some obj'
    \<and> callFillAll h' (fillAll obj') (v # rest) =
        (if v \<noteq> Undefined
         then callFillAll h' (fillAll obj) rest \<bind> (\<lambda>t. Some (t @ ''/'' @ ToString v))
         else callFillAll h' (fillAll obj) rest)
    \<and> callChain h' (filled obj') (vs @ [v]) =
        Some (Inr (FStr (if v \<noteq> Undefined then s @ ''/'' @ ToString v else s)))
    \<and> ToString Null = ''null''"
  using assms addOptionalParameter_result [OF assms(1,2)] callChain_snoc_curry [OF assms(3,4), of v]
  by (simp add: deref_append_new deref_append_old)

lemma optional_parameter_absence_marker_example:
  "\<exists>r h obj r' h' obj'.
      composeOps [Segment ''list''] (createRoute []) = Some (r, h)
    \<and> deref h r = Some obj
    \<and> addOptionalParameter ''page'' r h = Some (r', h')
    \<and> Undefined \<notin> set []
    \<and> callChain h' (filled obj) [] = Some (Inr (FStr ''/list''))
    \<and> deref h' r' = Some obj'
    \<and> callFillAll h' (fillAll obj') [Null] = Some ''/list/null''
    \<and> callChain h' (filled obj') [Null] = Some (Inr (FStr ''/list/null''))"
  using optional_parameter_absence_marker
    [of "[\<lparr> template = '''', parameters = Undefined, fillAll = FillEmpty, filled = FStr '''' \<rparr>,
          \<lparr> template = ''/list'', parameters = Undefined, fillAll = FillSeg 0 ''list'', filled = FStr ''/list'' \<rparr>]"
        1 "\<lparr> template = ''/list'', parameters = Undefined, fillAll = FillSeg 0 ''list'', filled = FStr ''/list'' \<rparr>"
        "''page''" 2
        "[\<lparr> template = '''', parameters = Undefined, fillAll = FillEmpty, filled = FStr '''' \<rparr>,
          \<lparr> template = ''/list'', parameters = Undefined, fillAll = FillSeg 0 ''list'', filled = FStr ''/list'' \<rparr>,
          \<lparr> template = ''/list/:page?'', parameters = Undefined, fillAll = FillOpt 1, filled = FFun (CurryStr ''/list'') \<rparr>]"
        "[]" "''/list''" Null "[]"]
  by (simp add: createRoute_def alloc_def addSegment_def addOptionalParameter_def deref_def)

section \<open>Well-formed stores and the frame of an operation\<close>

lemma wf_from_nth:
  "wf_from k h \<Longrightarrow> i < length h \<Longrightarrow> route_below (k + i) (h ! i)"
proof (induction h arbitrary: k i)
  case Nil
  then show ?case by simp
next
  case (Cons obj h)
  show ?case
  proof (cases i)
    case 0
    with Cons.prems show ?thesis by simp
  next
    case (Suc j)
    with Cons.prems Cons.IH [of "Suc k" j] show ?thesis by simp
  qed
qed

lemma wf_from_append:
  "wf_from k (h @ [obj]) = (wf_from k h \<and> route_below (k + length h) obj)"
  by (induction h arbitrary: k) auto

lemma wf_heap_deref:
  "wf_heap h \<Longrightarrow> deref h r = Some obj \<Longrightarrow> route_below r obj"
  using wf_from_nth [of 0 h r]
  by (auto simp add: wf_heap_def deref_def split: if_splits)

lemma fn_below_mono: "fn_below k f \<Longrightarrow> k \<le> k' \<Longrightarrow> fn_below k' f"
  by (induction f) auto

lemma filled_below_mono: "filled_below k x \<Longrightarrow> k \<le> k' \<Longrightarrow> filled_below k' x"
  by (cases x) (auto intro: fn_below_mono)

lemma fn_below_makeFilledCurry [simp]: "fn_below k (makeFilledCurry x) = filled_below k x"
  by (cases x) simp_all

lemma wf_heap_createRoute:
  "wf_heap h \<Longrightarrow> wf_heap (snd (createRoute h))"
  by (simp add: wf_heap_def createRoute_def alloc_def wf_from_append route_below_def)

lemma wf_heap_applyOp:
  assumes "wf_heap h" and "applyOp st r h = Some (r', h')"
  shows "wf_heap h'"
proof -
  from assms(2) obtain obj where d: "deref h r = Some obj"
    using applyOp_alloc by blast
  then have r: "r < length h" by (auto simp add: deref_def split: if_splits)
  from wf_heap_deref [OF assms(1) d] have "filled_below (length h) (filled obj)"
    using r by (auto simp add: route_below_def intro: filled_below_mono)
  with assms d r show ?thesis
    by (cases st; cases "filled obj")
       (auto simp add: wf_heap_def addSegment_def addParameter_def addOptionalParameter_def
          alloc_def wf_from_append route_below_def)
qed

lemma wf_heap_composeOps:
  "wf_heap h \<Longrightarrow> composeOps steps (r, h) = Some (r', h') \<Longrightarrow> wf_heap h'"
proof (induction steps arbitrary: r h)
  case Nil
  then show ?case by simp
next
  case (Cons st steps)
  from Cons.prems(2) obtain r1 h1 where a: "applyOp st r h = Some (r1, h1)"
    and c: "composeOps steps (r1, h1) = Some (r', h')"
    by (cases "applyOp st r h") auto
  from Cons.IH [OF wf_heap_applyOp [OF Cons.prems(1) a] c] show ?case .
qed

lemma callFillAll_frame:
  assumes "wf_heap h"
  shows "k \<le> length h \<Longrightarrow> fillAll_below k f \<Longrightarrow> callFillAll (h @ ys) f args = callFillAll h f args"
proof (induction k arbitrary: f args rule: less_induct)
  case (less k)
  have step: "callFillAll (h @ ys) (fillAll obj) as = callFillAll h (fillAll obj) as"
    if "r < k" and "deref h r = Some obj" for r obj as
  proof -
    from wf_heap_deref [OF assms that(2)] have "fillAll_below r (fillAll obj)"
      by (simp add: route_below_def)
    with less.IH [OF that(1)] less.prems(1) that(1) show ?thesis by simp
  qed
  have d: "deref (h @ ys) r = deref h r" if "r < k" for r
    using that less.prems(1) by (simp add: deref_def nth_append)
  show ?case
  proof (cases f)
    case FillEmpty
    then show ?thesis by simp
  next
    case (FillSeg r seg)
    with less.prems(2) have r: "r < k" by simp
    show ?thesis
      by (cases "deref h r") (simp_all add: FillSeg d [OF r] step [OF r])
  next
    case (FillParam r)
    with less.prems(2) have r: "r < k" by simp
    show ?thesis
      by (cases "deref h r") (simp_all add: FillParam d [OF r] step [OF r])
  next
    case (FillOpt r)
    with less.prems(2) have r: "r < k" by simp
    show ?thesis
      by (cases "deref h r") (simp_all add: FillOpt d [OF r] step [OF r])
  qed
qed

lemma callFn_frame:
  assumes "wf_heap h"
  shows "k \<le> length h \<Longrightarrow> fn_below k f \<Longrightarrow> callFn (h @ ys) f arg = callFn h f arg"
proof (induction k arbitrary: f rule: less_induct)
  case (less k)
  from less.prems(2) show ?case
  proof (induction f)
    case (CurryStr s)
    show ?case by simp
  next
    case (CurryFun g)
    then show ?case by simp
  next
    case (SegFilled r seg)
    then have r: "r < k" by simp
    have d: "deref (h @ ys) r = deref h r"
      using r less.prems(1) by (simp add: deref_def nth_append)
    show ?case
    proof (cases "deref h r")
      case None
      then show ?thesis by (simp add: d)
    next
      case (Some obj)
      show ?thesis
      proof (cases "filled obj")
        case (FStr s)
        then show ?thesis by (simp add: d Some)
      next
        case (FFun g)
        from wf_heap_deref [OF assms Some] FFun have "fn_below r g"
          by (simp add: route_below_def)
        with less.IH [OF r, of g] r less.prems(1)
        have "callFn (h @ ys) g arg = callFn h g arg" by simp
        then show ?thesis by (simp add: d Some FFun)
      qed
    qed
  qed
qed

lemma callFn_result_below:
  "fn_below k f \<Longrightarrow> callFn h f arg = Some (Inr x) \<Longrightarrow> filled_below k x"
proof (induction f arbitrary: x)
  case (CurryStr s)
  then show ?case by (auto split: if_splits)
next
  case (CurryFun g)
  show ?case
  proof (cases "arg = Undefined")
    case True
    with CurryFun.prems show ?thesis by auto
  next
    case False
    with CurryFun.prems obtain v where "callFn h g arg = Some (Inr v)" and "x = FFun (makeFilledCurry v)"
      by (cases "callFn h g arg") (auto split: sum.splits)
    with CurryFun.IH [of v] CurryFun.prems(1) show ?thesis by simp
  qed
next
  case (SegFilled r seg)
  then show ?case
    by (cases "deref h r") (auto split: FilledType.splits sum.splits bind_splits)
qed

lemma callChain_frame:
  assumes "wf_heap h"
  shows "filled_below (length h) x \<Longrightarrow> callChain (h @ ys) x vs = callChain h x vs"
proof (induction vs arbitrary: x)
  case Nil
  then show ?case by simp
next
  case (Cons v vs)
  show ?case
  proof (cases x)
    case (FStr s)
    then show ?thesis by simp
  next
    case (FFun f)
    with Cons.prems have f: "fn_below (length h) f" by simp
    have c: "callFn (h @ ys) f v = callFn h f v"
      using callFn_frame [OF assms _ f] by simp
    show ?thesis
    proof (cases "callFn h f v")
      case None
      then show ?thesis by (simp add: FFun c)
    next
      case (Some res)
      show ?thesis
      proof (cases res)
        case (Inl e)
        then show ?thesis by (simp add: FFun c Some)
      next
        case (Inr x')
        from callFn_result_below [OF f] Some Inr have "filled_below (length h) x'" by simp
        from Cons.IH [OF this] show ?thesis by (simp add: FFun c Some Inr)
      qed
    qed
  qed
qed

lemma fillAll_below_mono: "fillAll_below k f \<Longrightarrow> k \<le> k' \<Longrightarrow> fillAll_below k' f"
  by (cases f) auto

text \<open>In a well-formed store every call returns.\<close>

lemma callFillAll_returns:
  assumes "wf_heap h"
  shows "k \<le> length h \<Longrightarrow> fillAll_below k f \<Longrightarrow> \<exists>s. callFillAll h f args = Some s"
proof (induction k arbitrary: f args rule: less_induct)
  case (less k)
  have step: "\<exists>obj. deref h r = Some obj \<and> (\<forall>as. \<exists>s. callFillAll h (fillAll obj) as = Some s)"
    if "r < k" for r
  proof -
    from that less.prems(1) have d: "deref h r = Some (h ! r)" by (simp add: deref_def)
    from wf_heap_deref [OF assms d] have "fillAll_below r (fillAll (h ! r))"
      by (simp add: route_below_def)
    with less.IH [OF that] less.prems(1) that d show ?thesis by simp
  qed
  show ?case
  proof (cases f)
    case FillEmpty
    then show ?thesis by simp
  next
    case (FillSeg r seg)
    with less.prems(2) step [of r] obtain obj where "deref h r = Some obj"
      and "\<And>as. \<exists>s. callFillAll h (fillAll obj) as = Some s" by auto
    then show ?thesis using FillSeg by (metis callFillAll_FillSeg bind.bind_lunit)
  next
    case (FillParam r)
    with less.prems(2) step [of r] obtain obj where "deref h r = Some obj"
      and "\<And>as. \<exists>s. callFillAll h (fillAll obj) as = Some s" by auto
    then show ?thesis using FillParam by (metis callFillAll_FillParam bind.bind_lunit)
  next
    case (FillOpt r)
    with less.prems(2) step [of r] obtain obj where "deref h r = Some obj"
      and "\<And>as. \<exists>s. callFillAll h (fillAll obj) as = Some s" by auto
    then show ?thesis using FillOpt by (metis callFillAll_FillOpt bind.bind_lunit)
  qed
qed

lemma callFn_returns:
  assumes "wf_heap h"
  shows "k \<le> length h \<Longrightarrow> fn_below k f \<Longrightarrow> \<exists>res. callFn h f arg = Some res"
proof (induction k arbitrary: f rule: less_induct)
  case (less k)
  from less.prems(2) show ?case
  proof (induction f)
    case (CurryStr s)
    show ?case by simp
  next
    case (CurryFun g)
    then obtain res where "callFn h g arg = Some res" by auto
    then show ?case by simp
  next
    case (SegFilled r seg)
    then have r: "r < k" by simp
    with less.prems(1) have d: "deref h r = Some (h ! r)" by (simp add: deref_def)
    show ?case
    proof (cases "filled (h ! r)")
      case (FStr s)
      then show ?thesis by (simp add: d)
    next
      case (FFun g)
      from wf_heap_deref [OF assms d] FFun have "fn_below r g"
        by (simp add: route_below_def)
      with less.IH [OF r, of g] r less.prems(1)
      obtain res where "callFn h g arg = Some res" by auto
      then show ?thesis by (simp add: d FFun)
    qed
  qed
qed

text \<open>
  Claim C8. An append operation leaves every route of the store, its input route among
  them, as it was. In a well-formed store, after the operation the reference of a route
  denotes the same object, hence the same \<open>template\<close>, and its \<open>fillAll\<close> and its
  \<open>filled\<close> chain return on every argument list what they returned in the store before
  the operation. The operation only adds one object to the store, at a fresh reference.
\<close>

theorem operations_do_not_mutate:
  assumes "wf_heap h"
    and "deref h r0 = Some obj"
    and "applyOp st r h = Some (r', h')"
  shows "deref h' r0 = Some obj
    \<and> callFillAll h' (fillAll obj) args = callFillAll h (fillAll obj) args
    \<and> callChain h' (filled obj) vs = callChain h (filled obj) vs
    \<and> r' \<noteq> r0 \<and> length h' = Suc (length h) \<and> take (length h) h' = h"
proof -
  from applyOp_alloc [OF assms(3)] obtain obj' where r': "r' = length h" and h': "h' = h @ [obj']"
    by blast
  from assms(2) have r: "r0 < length h" by (auto simp add: deref_def split: if_splits)
  from wf_heap_deref [OF assms(1,2)] r
  have b: "fillAll_below (length h) (fillAll obj)" "filled_below (length h) (filled obj)"
    by (auto simp add: route_below_def intro: filled_below_mono fillAll_below_mono)
  have d: "deref h' r0 = Some obj"
    using assms(2) h' by (simp add: deref_append_old)
  show ?thesis
    using d r r' h' callFillAll_frame [OF assms(1) _ b(1), of "[obj']" args]
      callChain_frame [OF assms(1) b(2), of "[obj']" vs]
    by simp
qed

theorem operations_do_not_mutate_witness:
  "\<exists>r h obj r' h'.
      composeOps [Parameter ''a''] (createRoute []) = Some (r, h)
    \<and> wf_heap h
    \<and> deref h r = Some obj
    \<and> applyOp (Segment ''s'') r h = Some (r', h')
    \<and> template obj = ''/:a''
    \<and> deref h' r = Some obj
    \<and> callFillAll h (fillAll obj) [JNum 1] = Some ''/1''
    \<and> callFillAll h' (fillAll obj) [JNum 1] = Some ''/1''
    \<and> callChain h (filled obj) [JNum 1] = Some (Inr (FStr ''/1''))
    \<and> callChain h' (filled obj) [JNum 1] = Some (Inr (FStr ''/1''))
    \<and> r' \<noteq> r"
  using operations_do_not_mutate
    [of "[\<lparr> template = '''', parameters = Undefined, fillAll = FillEmpty, filled = FStr '''' \<rparr>,
          \<lparr> template = ''/:a'', parameters = Undefined, fillAll = FillParam 0, filled = FFun (CurryStr '''') \<rparr>]"
        1 "\<lparr> template = ''/:a'', parameters = Undefined, fillAll = FillParam 0, filled = FFun (CurryStr '''') \<rparr>"
        "Segment ''s''" 1 2
        "[\<lparr> template = '''', parameters = Undefined, fillAll = FillEmpty, filled = FStr '''' \<rparr>,
          \<lparr> template = ''/:a'', parameters = Undefined, fillAll = FillParam 0, filled = FFun (CurryStr '''') \<rparr>,
          \<lparr> template = ''/:a/s'', parameters = Undefined, fillAll = FillSeg 1 ''s'', filled = FFun (SegFilled 1 ''s'') \<rparr>]"
        "[JNum 1]" "[JNum 1]"]
  by (simp add: createRoute_def alloc_def addParameter_def addSegment_def deref_def
        wf_heap_def route_below_def show_nat.simps digit_def)

section \<open>Segments and pending parameters\<close>

text \<open>
  What holds of Claim C1: on a route with no pending parameter the segment is appended to
  the string at once, and on a route with exactly one pending parameter the one call of
  the new \<open>filled\<close> returns the string of the previous \<open>filled\<close> followed by
  \<open>/segment\<close>.
\<close>

lemma addSegment_at_most_one_pending:
  assumes "deref h r = Some obj"
    and "addSegment seg r h = Some (r', h')"
    and "callChain h' (filled obj) vs = Some (Inr (FStr s))"
    and "length vs \<le> 1"
  shows "\<exists>obj'. deref h' r' = Some obj'
    \<and> callChain h' (filled obj') vs = Some (Inr (FStr (s @ ''/'' @ seg)))"
proof (cases vs)
  case Nil
  with assms addSegment_result [OF assms(1,2)] show ?thesis
    by (cases "filled obj") (simp_all add: deref_append_new)
next
  case (Cons v vs')
  with assms(4) have vs: "vs = [v]" by simp
  from assms(3) vs obtain g where g: "filled obj = FFun g"
    by (cases "filled obj") simp_all
  from assms(3) vs g have c: "callFn h' g v = Some (Inr (FStr s))"
    by (auto split: option.splits sum.splits)
  have d: "deref h' r = Some obj"
    using assms(1) addSegment_result [OF assms(1,2)] by (simp add: deref_append_old)
  from addSegment_result [OF assms(1,2)] g c d vs show ?thesis
    by (simp add: deref_append_new)
qed

text \<open>
  Claim C1, at the route \<open>empty \<rightarrow> addParameter a \<rightarrow> addParameter b \<rightarrow> addSegment s\<close>.
  The first call \<open>filled(1)\<close> does not return a function: the arrow function of
  \<open>addSegment\<close> interpolates what the inner \<open>filled(1)\<close> returns, which is the pending
  function of \<open>b\<close>, so the call returns the source text of that function followed by
  \<open>/s\<close>, a string. The second call of the chain, \<open>filled(1)(2)\<close>, then calls a string
  and raises \<open>TypeError\<close>. Before the segment was added, \<open>filled(1)\<close> was a function and
  \<open>filled(1)(2)\<close> was \<open>/1/2\<close>.
\<close>

theorem segment_after_two_pending_parameters:
  "\<exists>r0 h0 o0 r h obj f.
      composeOps [Parameter ''a'', Parameter ''b''] (createRoute []) = Some (r0, h0)
    \<and> deref h0 r0 = Some o0
    \<and> callChain h0 (filled o0) [JNum 1, JNum 2] = Some (Inr (FStr ''/1/2''))
    \<and> addSegment ''s'' r0 h0 = Some (r, h)
    \<and> deref h r = Some obj
    \<and> filled obj = FFun f
    \<and> callFn h f (JNum 1) = Some (Inr (FStr (fnSource (CurryStr ''/1'') @ ''/s'')))
    \<and> callChain h (filled obj) [JNum 1, JNum 2] = Some (Inl TypeError)"
  by (simp add: createRoute_def alloc_def addParameter_def addSegment_def deref_def
        show_nat.simps digit_def)

text \<open>
  Claim C3, at the same route: it has two parameters, but one call with a defined value
  already reaches a plain string. Before the segment was added the count was two.
\<close>

theorem segment_changes_step_count:
  "\<exists>r0 h0 o0 r h obj.
      composeOps [Parameter ''a'', Parameter ''b''] (createRoute []) = Some (r0, h0)
    \<and> deref h0 r0 = Some o0
    \<and> callsToString h0 (filled o0) [JNum 1, JNum 2] = Some 2
    \<and> composeOps [Parameter ''a'', Parameter ''b'', Segment ''s''] (createRoute []) = Some (r, h)
    \<and> deref h r = Some obj
    \<and> paramCount [Parameter ''a'', Parameter ''b'', Segment ''s''] = 2
    \<and> callsToString h (filled obj) [JNum 1, JNum 2] = Some 1"
  by (simp add: createRoute_def alloc_def addParameter_def addSegment_def deref_def
        paramCount_def show_nat.simps digit_def)

section \<open>The number of curried steps\<close>

lemma paramCount_snoc:
  "paramCount (sts @ [st]) = (if isParameter st then Suc (paramCount sts) else paramCount sts)"
  by (simp add: paramCount_def)

lemma segmentsEarly_snoc:
  "segmentsEarly n (sts @ [st]) =
     (segmentsEarly n sts \<and> (isParameter st \<or> n + paramCount sts \<le> 1))"
proof (induction sts arbitrary: n)
  case Nil
  show ?case by (cases st) (simp_all add: paramCount_def)
next
  case (Cons a sts)
  show ?case by (cases a) (auto simp add: Cons.IH paramCount_def)
qed

lemma callsToString_frame:
  assumes "wf_heap h"
  shows "filled_below (length h) x \<Longrightarrow> callsToString (h @ ys) x vs = callsToString h x vs"
proof (induction vs arbitrary: x)
  case Nil
  then show ?case by (cases x) simp_all
next
  case (Cons v vs)
  show ?case
  proof (cases x)
    case (FStr s)
    then show ?thesis by simp
  next
    case (FFun f)
    with Cons.prems have f: "fn_below (length h) f" by simp
    have c: "callFn (h @ ys) f v = callFn h f v"
      using callFn_frame [OF assms _ f] by simp
    show ?thesis
    proof (cases "callFn h f v")
      case None
      then show ?thesis by (simp add: FFun c)
    next
      case (Some res)
      show ?thesis
      proof (cases res)
        case (Inl e)
        then show ?thesis by (simp add: FFun c Some)
      next
        case (Inr x')
        from callFn_result_below [OF f] Some Inr have "filled_below (length h) x'" by simp
        from Cons.IH [OF this] show ?thesis by (simp add: FFun c Some Inr)
      qed
    qed
  qed
qed

lemma callsToString_snoc_curry:
  assumes "Undefined \<notin> set vs"
    and "callsToString h x vs = Some (length vs)"
  shows "callsToString h (FFun (makeFilledCurry x)) (vs @ [w]) = Some (Suc (length vs))"
  using assms
proof (induction vs arbitrary: x)
  case Nil
  then show ?case by (cases x) simp_all
next
  case (Cons v vs)
  from Cons.prems(2) obtain g where x: "x = FFun g"
    by (cases x) simp_all
  from Cons.prems(2) x obtain x' where c: "callFn h g v = Some (Inr x')"
    and r: "callsToString h x' vs = Some (length vs)"
    by (auto split: option.splits sum.splits)
  from Cons.prems(1) have v: "v \<noteq> Undefined" and vs: "Undefined \<notin> set vs" by auto
  from Cons.IH [OF vs r] show ?case
    by (simp add: x c v)
qed

lemma callsToString_segment:
  assumes "deref h r = Some obj"
    and "addSegment seg r h = Some (r', h')"
    and "callsToString h' (filled obj) vs = Some (length vs)"
    and "length vs \<le> 1"
  shows "\<exists>obj'. deref h' r' = Some obj' \<and> callsToString h' (filled obj') vs = Some (length vs)"
proof (cases vs)
  case Nil
  with assms addSegment_result [OF assms(1,2)] show ?thesis
    by (cases "filled obj") (simp_all add: deref_append_new)
next
  case (Cons v vs')
  with assms(4) have vs: "vs = [v]" by simp
  from assms(3) vs obtain g where g: "filled obj = FFun g"
    by (cases "filled obj") simp_all
  from assms(3) vs g obtain x where c: "callFn h' g v = Some (Inr x)"
    and x: "callsToString h' x [] = Some 0"
    by (auto split: option.splits sum.splits)
  from x obtain s where s: "x = FStr s" by (cases x) simp_all
  have d: "deref h' r = Some obj"
    using assms(1) addSegment_result [OF assms(1,2)] by (simp add: deref_append_old)
  from addSegment_result [OF assms(1,2)] g c d vs s show ?thesis
    by (simp add: deref_append_new)
qed

text \<open>
  Where the invariant of Claim C3 holds: when no segment is added while two or more
  parameters are pending, the number of calls with defined values that lead to a plain
  string is the number of parameters added.
\<close>

lemma curried_steps_when_segments_early:
  assumes "wf_heap h"
  shows "segmentsEarly 0 steps \<Longrightarrow> composeOps steps (createRoute h) = Some (r, h') \<Longrightarrow>
         deref h' r = Some obj \<Longrightarrow> Undefined \<notin> set vs \<Longrightarrow> length vs = paramCount steps \<Longrightarrow>
         callsToString h' (filled obj) vs = Some (paramCount steps)"
proof (induction steps arbitrary: r h' obj vs rule: rev_induct)
  case Nil
  then show ?case
    by (auto simp add: createRoute_def alloc_def deref_def paramCount_def)
next
  case (snoc st steps)
  from snoc.prems(2) obtain r1 h1 where c1: "composeOps steps (createRoute h) = Some (r1, h1)"
    and a: "applyOp st r1 h1 = Some (r, h')"
    by (cases "composeOps steps (createRoute h)") (auto simp add: composeOps_snoc)
  from applyOp_alloc [OF a] obtain o1 obj' where d1: "deref h1 r1 = Some o1"
    and r: "r = length h1" and h': "h' = h1 @ [obj']" by blast
  have wf1: "wf_heap h1"
    using wf_heap_composeOps [OF wf_heap_createRoute [OF assms], of steps "fst (createRoute h)" r1 h1] c1
    by simp
  from wf_heap_deref [OF wf1 d1] d1 have b1: "filled_below (length h1) (filled o1)"
    by (auto simp add: route_below_def deref_def intro: filled_below_mono split: if_splits)
  from snoc.prems(1) have early: "segmentsEarly 0 steps"
    and last: "isParameter st \<or> paramCount steps \<le> 1"
    by (simp_all add: segmentsEarly_snoc)
  have ih: "callsToString h' (filled o1) ws = Some (paramCount steps)"
    if "Undefined \<notin> set ws" and "length ws = paramCount steps" for ws
    using snoc.IH [OF early c1 d1 that] callsToString_frame [OF wf1 b1, of "[obj']" ws]
    by (simp add: h')
  show ?case
  proof (cases "isParameter st")
    case True
    with snoc.prems(5) obtain ws w where vs: "vs = ws @ [w]" and lw: "length ws = paramCount steps"
      by (cases vs rule: rev_cases) (auto simp add: paramCount_snoc)
    from snoc.prems(4) vs have ws: "Undefined \<notin> set ws" by simp
    have "callsToString h' (FFun (makeFilledCurry (filled o1))) (ws @ [w]) = Some (Suc (length ws))"
      using callsToString_snoc_curry [OF ws, of h' "filled o1" w] ih [OF ws lw] lw by simp
    moreover have "filled obj = FFun (makeFilledCurry (filled o1))"
      using True a d1 snoc.prems(3) r h'
      by (cases st) (auto simp add: addParameter_def addOptionalParameter_def alloc_def deref_def)
    ultimately show ?thesis
      using True vs lw by (simp add: paramCount_snoc)
  next
    case False
    then obtain seg where st: "st = Segment seg" by (cases st) simp_all
    from False last have le: "paramCount steps \<le> 1" by simp
    from snoc.prems(5) False have lv: "length vs = paramCount steps"
      by (simp add: paramCount_snoc)
    from a st have as: "addSegment seg r1 h1 = Some (r, h')" by simp
    from ih [OF snoc.prems(4) lv] lv
    have "callsToString h' (filled o1) vs = Some (length vs)" by simp
    from callsToString_segment [OF d1 as this] le lv snoc.prems(3) False show ?thesis
      by (simp add: paramCount_snoc)
  qed
qed

section \<open>The flat filler on every route\<close>

lemma firstArg_drop: "firstArg (drop k args) = argAt k args"
  by (cases "drop k args") (auto simp add: argAt_def hd_drop_conv_nth dest: arg_cong [where f = hd])

lemma restArgs_drop: "restArgs (drop k args) = drop (Suc k) args"
  by (cases "drop k args") (auto simp add: drop_Suc tl_drop dest: arg_cong [where f = tl])

lemma argAt_drop: "argAt k (drop m args) = argAt (k + m) args"
  by (auto simp add: argAt_def add.commute)

lemma paramCount_Cons:
  "paramCount (st # sts) = (if isParameter st then Suc (paramCount sts) else paramCount sts)"
  by (simp add: paramCount_def)

lemma paramCount_append: "paramCount (xs @ ys) = paramCount xs + paramCount ys"
  by (simp add: paramCount_def)

lemma composeOps_extends:
  "composeOps steps (r, h) = Some (r', h') \<Longrightarrow> \<exists>ys. h' = h @ ys"
proof (induction steps arbitrary: r h)
  case Nil
  then show ?case by simp
next
  case (Cons st steps)
  from Cons.prems obtain r1 h1 where a: "applyOp st r h = Some (r1, h1)"
    and c: "composeOps steps (r1, h1) = Some (r', h')"
    by (cases "applyOp st r h") auto
  from applyOp_alloc [OF a] obtain obj' where "h1 = h @ [obj']" by blast
  with Cons.IH [OF c] show ?case by auto
qed

lemma callFillAll_composeOps:
  assumes "deref h0 r0 = Some obj0"
    and "composeOps steps (r0, h0) = Some (r, h)"
    and "deref h r = Some obj"
  shows "callFillAll h (fillAll obj) args =
           callFillAll h (fillAll obj0) (drop (paramCount steps) args) \<bind>
             (\<lambda>t. Some (t @ flatText steps args))"
  using assms
proof (induction steps arbitrary: r0 h0 obj0)
  case Nil
  then show ?case by (simp add: paramCount_def)
next
  case (Cons st steps)
  from Cons.prems(2) obtain r1 h1 where a: "applyOp st r0 h0 = Some (r1, h1)"
    and c: "composeOps steps (r1, h1) = Some (r, h)"
    by (cases "applyOp st r0 h0") auto
  from applyOp_alloc [OF a] obtain obj1 where h1: "h1 = h0 @ [obj1]" and r1: "r1 = length h0"
    and d1: "deref h1 r1 = Some obj1" by blast
  from composeOps_extends [OF c] h1 obtain ys where h: "h = h0 @ ys" by auto
  have d0: "deref h r0 = Some obj0"
    using Cons.prems(1) h by (simp add: deref_append_old)
  let ?k = "paramCount steps"
  let ?inner = "\<lambda>as. callFillAll h (fillAll obj0) as"
  have ih: "callFillAll h (fillAll obj) args =
      callFillAll h (fillAll obj1) (drop ?k args) \<bind> (\<lambda>t. Some (t @ flatText steps args))"
    by (rule Cons.IH [OF d1 c Cons.prems(3)])
  show ?case
  proof (cases st)
    case (Segment s)
    with a Cons.prems(1) h1 have "fillAll obj1 = FillSeg r0 s"
      by (auto simp add: addSegment_def alloc_def)
    then show ?thesis
      by (cases "?inner (drop ?k args)") (simp_all add: ih d0 Segment paramCount_Cons)
  next
    case (Parameter name)
    with a Cons.prems(1) h1 have "fillAll obj1 = FillParam r0"
      by (auto simp add: addParameter_def alloc_def)
    then show ?thesis
      by (cases "?inner (drop (Suc ?k) args)")
         (simp_all add: ih d0 Parameter paramCount_Cons firstArg_drop restArgs_drop)
  next
    case (OptionalParameter name)
    with a Cons.prems(1) h1 have "fillAll obj1 = FillOpt r0"
      by (auto simp add: addOptionalParameter_def alloc_def)
    then show ?thesis
      by (cases "?inner (drop (Suc ?k) args)")
         (simp_all add: ih d0 OptionalParameter paramCount_Cons firstArg_drop restArgs_drop)
  qed
qed

text \<open>
  On every route built from \<open>createRoute()\<close>, \<open>fillAll\<close> returns, on every argument
  list, the path the template describes.
\<close>

lemma fillAll_is_flatText:
  assumes "composeOps steps (createRoute h0) = Some (r, h)"
    and "deref h r = Some obj"
  shows "callFillAll h (fillAll obj) args = Some (flatText steps args)"
proof -
  let ?e = "\<lparr> template = [], parameters = Undefined, fillAll = FillEmpty, filled = FStr [] \<rparr>"
  have c: "composeOps steps (length h0, h0 @ [?e]) = Some (r, h)"
    using assms(1) by (simp add: createRoute_def alloc_def)
  from callFillAll_composeOps [OF deref_append_new c assms(2), of args] show ?thesis
    by simp
qed

lemma flatText_append:
  "flatText (pre @ post) args = flatText pre (drop (paramCount post) args) @ flatText post args"
proof (induction pre)
  case Nil
  show ?case by simp
next
  case (Cons st pre)
  show ?case
    by (cases st) (simp_all add: Cons.IH paramCount_append argAt_drop)
qed

text \<open>
  The flat half of Claims C5 and C10, for a parameter at any place of any route. With
  \<open>undefined\<close> in the position of a required parameter, \<open>fillAll\<close> returns the path
  of the steps before it, the text \<open>/undefined\<close>, and the path of the steps after it.
  In the position of an optional parameter, every value other than \<open>undefined\<close> is
  interpolated, \<open>null\<close> as \<open>/null\<close>, and \<open>undefined\<close> alone leaves the component out.
\<close>

lemma fillAll_required_undefined:
  assumes "composeOps (pre @ Parameter name # post) (createRoute h0) = Some (r, h)"
    and "deref h r = Some obj"
    and "argAt (paramCount post) args = Undefined"
  shows "callFillAll h (fillAll obj) args =
           Some (flatText pre (drop (Suc (paramCount post)) args) @ ''/undefined'' @ flatText post args)"
  using fillAll_is_flatText [OF assms(1,2), of args] assms(3)
  by (simp add: flatText_append paramCount_Cons)

lemma fillAll_optional_value:
  assumes "composeOps (pre @ OptionalParameter name # post) (createRoute h0) = Some (r, h)"
    and "deref h r = Some obj"
    and "argAt (paramCount post) args = v"
  shows "callFillAll h (fillAll obj) args =
           Some (flatText pre (drop (Suc (paramCount post)) args)
                 @ (if v \<noteq> Undefined then ''/'' @ ToString v else '''')
                 @ flatText post args)"
  using fillAll_is_flatText [OF assms(1,2), of args] assms(3)
  by (simp add: flatText_append paramCount_Cons)

section \<open>Where the curried filler departs from the template\<close>

text \<open>
  Claim C9, at the route \<open>empty \<rightarrow> addOptionalParameter a \<rightarrow> addSegment s \<rightarrow> addParameter b\<close>,
  whose template is \<open>/:a?/s/:b\<close>. Skipping the optional parameter does not advance to
  the step of \<open>b\<close>: \<open>filled(undefined)\<close> returns the \<open>filled\<close> of the route before
  \<open>b\<close> was added, the function \<open>addSegment\<close> built around the step of \<open>a\<close>, so the
  next value is taken as the value of \<open>a\<close> and \<open>filled(undefined)(2)\<close> is \<open>/2/s\<close>.
  The flat filler puts the same values where the template has them:
  \<open>fillAll(2, undefined)\<close> is \<open>/s/2\<close>.
\<close>

theorem skipping_optional_parameter_before_segment:
  "\<exists>r1 h1 o1 r h obj f.
      composeOps [OptionalParameter ''a'', Segment ''s''] (createRoute []) = Some (r1, h1)
    \<and> deref h1 r1 = Some o1
    \<and> addParameter ''b'' r1 h1 = Some (r, h)
    \<and> deref h r = Some obj
    \<and> template obj = ''/:a?/s/:b''
    \<and> filled obj = FFun f
    \<and> callFn h f Undefined = Some (Inr (filled o1))
    \<and> callChain h (filled o1) [JNum 2] = Some (Inr (FStr ''/2/s''))
    \<and> callChain h (filled obj) [Undefined, JNum 2] = Some (Inr (FStr ''/2/s''))
    \<and> callFillAll h (fillAll obj) [JNum 2, Undefined] = Some ''/s/2''"
  by (simp add: createRoute_def alloc_def addParameter_def addOptionalParameter_def
        addSegment_def deref_def show_nat.simps digit_def)

text \<open>
  Claim C5, at the route \<open>empty \<rightarrow> addParameter a \<rightarrow> addSegment s \<rightarrow> addParameter b\<close>,
  whose template is \<open>/:a/s/:b\<close>, with \<open>undefined\<close> supplied for the required parameter
  \<open>a\<close>. The flat filler interpolates it in its place: \<open>fillAll(2, undefined)\<close> is
  \<open>/undefined/s/2\<close>. The curried filler does not return the path with the component of
  \<open>a\<close> left out, which would be \<open>/s/2\<close>: \<open>filled(undefined)(2)\<close> is \<open>/2/s\<close>, the
  value of \<open>b\<close> in the place of \<open>a\<close> and nothing in the place of \<open>b\<close>. With a
  defined value for \<open>a\<close> the same route gives \<open>filled(1)(2) = /1/s/2\<close>.
\<close>

theorem undefined_for_required_parameter_before_segment:
  "\<exists>r h obj.
      composeOps [Parameter ''a'', Segment ''s'', Parameter ''b''] (createRoute []) = Some (r, h)
    \<and> deref h r = Some obj
    \<and> template obj = ''/:a/s/:b''
    \<and> callFillAll h (fillAll obj) [JNum 2, Undefined] = Some ''/undefined/s/2''
    \<and> callChain h (filled obj) [Undefined, JNum 2] = Some (Inr (FStr ''/2/s''))
    \<and> callChain h (filled obj) [JNum 1, JNum 2] = Some (Inr (FStr ''/1/s/2''))"
  by (simp add: createRoute_def alloc_def addParameter_def addSegment_def deref_def
        show_nat.simps digit_def)

text \<open>
  Claim C10, at the route \<open>empty \<rightarrow> addOptionalParameter a \<rightarrow> addParameter b \<rightarrow> addSegment s\<close>,
  whose template is \<open>/:a?/:b/s\<close>, with \<open>null\<close> passed for the optional parameter. The
  flat filler interpolates it: \<open>fillAll(2, null)\<close> is \<open>/null/2/s\<close>. The curried filler
  does not: \<open>filled(null)\<close> is not the pending step of \<open>b\<close> but a string, the source
  text of that step followed by \<open>/s\<close>, and \<open>filled(null)(2)\<close> raises \<open>TypeError\<close>.
  Before the segment was added, \<open>filled(null)(2)\<close> was \<open>/null/2\<close>.
\<close>

theorem null_for_optional_parameter_before_segment:
  "\<exists>r0 h0 o0 r h obj.
      composeOps [OptionalParameter ''a'', Parameter ''b''] (createRoute []) = Some (r0, h0)
    \<and> deref h0 r0 = Some o0
    \<and> callChain h0 (filled o0) [Null, JNum 2] = Some (Inr (FStr ''/null/2''))
    \<and> addSegment ''s'' r0 h0 = Some (r, h)
    \<and> deref h r = Some obj
    \<and> template obj = ''/:a?/:b/s''
    \<and> callFillAll h (fillAll obj) [JNum 2, Null] = Some ''/null/2/s''
    \<and> callChain h (filled obj) [Null] = Some (Inr (FStr (fnSource (CurryStr ''/null'') @ ''/s'')))
    \<and> callChain h (filled obj) [Null, JNum 2] = Some (Inl TypeError)"
  by (simp add: createRoute_def alloc_def addParameter_def addOptionalParameter_def
        addSegment_def deref_def show_nat.simps digit_def)

section \<open>The builder and the standalone operations\<close>

lemma applyMethod_applyOp:
  "applyMethod st b h = map_option (\<lambda>(r, h'). (b\<lparr> typedRoute := r \<rparr>, h')) (applyOp st (typedRoute b) h)"
  by (cases st; cases "applyOp st (typedRoute b) h")
     (auto simp add: segment_def parameter_def optionalParameter_def)

lemma chainMethods_composeOps:
  "map_option (\<lambda>(b', h'). (build b', h')) (chainMethods steps (b, h)) = composeOps steps (typedRoute b, h)"
proof (induction steps arbitrary: b h)
  case Nil
  then show ?case by (simp add: build_def)
next
  case (Cons st steps)
  show ?case
  proof (cases "applyOp st (typedRoute b) h")
    case None
    then show ?thesis by (simp add: applyMethod_applyOp)
  next
    case (Some rh)
    obtain r h' where rh: "rh = (r, h')" by (cases rh)
    from Cons.IH [of "b\<lparr> typedRoute := r \<rparr>" h'] show ?thesis
      by (simp add: applyMethod_applyOp Some rh)
  qed
qed

lemma buildWithBuilder_composeOps:
  "buildWithBuilder steps h = composeOps steps (createRoute h)"
proof -
  obtain r0 h0 where cr: "createRoute h = (r0, h0)" by (cases "createRoute h")
  show ?thesis
    using chainMethods_composeOps [of steps "\<lparr> typedRoute = r0 \<rparr>" h0]
    by (simp add: buildWithBuilder_def newTypedRouteBuilder_def cr)
qed

subsection \<open>Routes built alike behave alike\<close>

lemma simFillAll_append:
  "simFillAll h1 h2 f g \<Longrightarrow> simFillAll (h1 @ xs) (h2 @ ys) f g"
  by (induction rule: simFillAll.induct) (auto intro: simFillAll.intros deref_append_old)

lemma simFn_append:
  "simFn h1 h2 f g \<Longrightarrow> simFn (h1 @ xs) (h2 @ ys) f g"
  by (induction rule: simFn.induct) (auto intro: simFn.intros deref_append_old)

lemma simFilled_append:
  "simFilled h1 h2 x y \<Longrightarrow> simFilled (h1 @ xs) (h2 @ ys) x y"
  by (induction rule: simFilled.induct) (auto intro: simFilled.intros simFn_append)

lemma simFn_fnSource: "simFn h1 h2 f g \<Longrightarrow> fnSource f = fnSource g"
  by (induction rule: simFn.induct) simp_all

lemma simFilled_toString: "simFilled h1 h2 x y \<Longrightarrow> filledToString x = filledToString y"
  by (induction rule: simFilled.induct) (simp_all add: simFn_fnSource)

lemma simFilled_makeFilledCurry:
  "simFilled h1 h2 x y \<Longrightarrow> simFn h1 h2 (makeFilledCurry x) (makeFilledCurry y)"
  by (induction rule: simFilled.induct) (auto intro: simFn.intros)

lemma simFillAll_call:
  "simFillAll h1 h2 f g \<Longrightarrow> callFillAll h1 f args = callFillAll h2 g args"
  by (induction arbitrary: args rule: simFillAll.induct) simp_all

lemma simFilled_deferred:
  "simFilled h1 h2 x y \<Longrightarrow> simFilled h1 h2 (FFun (makeFilledCurry x)) (FFun (makeFilledCurry y))"
  by (simp add: simFilled.simFFun simFilled_makeFilledCurry)

text \<open>The results of two like functions are alike: both fail, or both return like values.\<close>

lemma simFn_call:
  "simFn h1 h2 f g \<Longrightarrow>
     rel_option (rel_sum (=) (simFilled h1 h2)) (callFn h1 f arg) (callFn h2 g arg)"
proof (induction rule: simFn.induct)
  case (simCurryStr s)
  show ?case by (simp add: simFilled.intros)
next
  case (simCurryFun f g)
  show ?case
  proof (cases "arg = Undefined")
    case True
    with simCurryFun.hyps show ?thesis by (simp add: simFilled.intros)
  next
    case False
    with simCurryFun.IH show ?thesis
      by (cases "callFn h1 f arg"; cases "callFn h2 g arg")
         (auto simp add: rel_sum.simps intro: simFilled_deferred)
  qed
next
  case (simSegStr r1 o1 r2 o2 s1 s2 seg)
  then show ?case by simp
next
  case (simSegFun r1 o1 r2 o2 f g seg)
  from simSegFun.IH simSegFun.hyps(1-4) show ?case
    by (cases "callFn h1 f arg"; cases "callFn h2 g arg")
       (auto simp add: rel_sum.simps simFilled_toString intro: simFilled.intros)
qed

lemma simFilled_callChain:
  "simFilled h1 h2 x y \<Longrightarrow> observe (callChain h1 x vs) = observe (callChain h2 y vs)"
proof (induction vs arbitrary: x y)
  case Nil
  then show ?case by (cases rule: simFilled.cases) (simp_all add: simFn_fnSource)
next
  case (Cons v vs)
  from Cons.prems show ?case
  proof (cases rule: simFilled.cases)
    case (simFStr s)
    then show ?thesis by simp
  next
    case (simFFun f g)
    have rel: "rel_option (rel_sum (=) (simFilled h1 h2)) (callFn h1 f v) (callFn h2 g v)"
      by (rule simFn_call [OF simFFun(3)])
    show ?thesis
    proof (cases "callFn h1 f v")
      case None
      with rel have "callFn h2 g v = None" by (cases "callFn h2 g v") simp_all
      with None show ?thesis by (simp add: simFFun)
    next
      case (Some a)
      with rel obtain b where b: "callFn h2 g v = Some b" and ab: "rel_sum (=) (simFilled h1 h2) a b"
        by (cases "callFn h2 g v") simp_all
      show ?thesis
      proof (cases a)
        case (Inl e)
        with ab have "b = Inl e" by (cases b) simp_all
        with Some b Inl show ?thesis by (simp add: simFFun)
      next
        case (Inr x')
        with ab obtain y' where y: "b = Inr y'" and xy: "simFilled h1 h2 x' y'"
          by (cases b) simp_all
        from Cons.IH [OF xy] Some b Inr y show ?thesis by (simp add: simFFun)
      qed
    qed
  qed
qed

lemma applyOp_simRoute:
  assumes "deref h1 r1 = Some o1" and "deref h2 r2 = Some o2" and "simRoute h1 h2 o1 o2"
  shows "\<exists>o1' o2'. applyOp st r1 h1 = Some (length h1, h1 @ [o1'])
           \<and> applyOp st r2 h2 = Some (length h2, h2 @ [o2'])
           \<and> simRoute (h1 @ [o1']) (h2 @ [o2']) o1' o2'"
proof -
  have d1: "deref (h1 @ xs) r1 = Some o1" for xs using assms(1) by (rule deref_append_old)
  have d2: "deref (h2 @ xs) r2 = Some o2" for xs using assms(2) by (rule deref_append_old)
  from assms(3) have t: "template o1 = template o2"
    and fa: "simFillAll (h1 @ xs) (h2 @ ys) (fillAll o1) (fillAll o2)"
    and fi: "simFilled (h1 @ xs) (h2 @ ys) (filled o1) (filled o2)" for xs ys
    by (simp_all add: simRoute_def simFillAll_append simFilled_append)
  show ?thesis
  proof (cases st)
    case (Segment s)
    from fi [of "[]" "[]"] show ?thesis
    proof (cases rule: simFilled.cases)
      case (simFStr s')
      with assms(1,2) t show ?thesis
        by (auto simp add: Segment addSegment_def alloc_def simRoute_def
            intro!: simFillAll.simFillSeg [OF d1 d2 fa] simFilled.intros)
    next
      case (simFFun f g)
      have "simFn (h1 @ xs) (h2 @ ys) f g" for xs ys
        using fi [of xs ys] simFFun by (auto elim: simFilled.cases)
      with assms(1,2) t simFFun show ?thesis
        by (auto simp add: Segment addSegment_def alloc_def simRoute_def
            intro!: simFillAll.simFillSeg [OF d1 d2 fa] simFilled.intros
                    simFn.simSegFun [OF d1 d2])
    qed
  next
    case (Parameter name)
    with assms(1,2) t show ?thesis
      by (auto simp add: addParameter_def alloc_def simRoute_def
          intro!: simFillAll.simFillParam [OF d1 d2 fa] simFilled.intros
                  simFilled_makeFilledCurry fi)
  next
    case (OptionalParameter name)
    with assms(1,2) t show ?thesis
      by (auto simp add: addOptionalParameter_def alloc_def simRoute_def
          intro!: simFillAll.simFillOpt [OF d1 d2 fa] simFilled.intros
                  simFilled_makeFilledCurry fi)
  qed
qed

lemma composeOps_simRoute:
  assumes "deref h1 r1 = Some o1" and "deref h2 r2 = Some o2" and "simRoute h1 h2 o1 o2"
  shows "\<exists>r1' h1' o1' r2' h2' o2'.
           composeOps steps (r1, h1) = Some (r1', h1') \<and> deref h1' r1' = Some o1'
         \<and> composeOps steps (r2, h2) = Some (r2', h2') \<and> deref h2' r2' = Some o2'
         \<and> simRoute h1' h2' o1' o2'"
  using assms
proof (induction steps arbitrary: r1 h1 o1 r2 h2 o2)
  case Nil
  then show ?case by simp
next
  case (Cons st steps)
  from applyOp_simRoute [OF Cons.prems, of st] obtain o1' o2' where
    a1: "applyOp st r1 h1 = Some (length h1, h1 @ [o1'])" and
    a2: "applyOp st r2 h2 = Some (length h2, h2 @ [o2'])" and
    s: "simRoute (h1 @ [o1']) (h2 @ [o2']) o1' o2'" by blast
  from Cons.IH [OF deref_append_new deref_append_new s] show ?case
    by (simp add: a1 a2)
qed

text \<open>
  Claim C6. For every sequence of steps, chaining them through a builder constructed with
  no argument and calling \<open>build()\<close> gives what composing the standalone operations on
  \<open>createRoute()\<close> in the same order gives: run from the same store, the same reference
  into the same store. Run from any two stores, both succeed and the two route values are
  observably identical: same \<open>template\<close>, same result of \<open>fillAll\<close> on every
  argument list, same observation of the \<open>filled\<close> chain on every list of values.
\<close>

theorem builder_equivalence:
  "buildWithBuilder steps ha = composeOps steps (createRoute ha)
   \<and> (\<exists>r1 h1 o1 r2 h2 o2.
       buildWithBuilder steps ha = Some (r1, h1) \<and> deref h1 r1 = Some o1
     \<and> composeOps steps (createRoute hb) = Some (r2, h2) \<and> deref h2 r2 = Some o2
     \<and> template o1 = template o2
     \<and> (\<forall>args. callFillAll h1 (fillAll o1) args = callFillAll h2 (fillAll o2) args)
     \<and> (\<forall>vs. observe (callChain h1 (filled o1) vs) = observe (callChain h2 (filled o2) vs)))"
proof -
  let ?e = "\<lparr> template = [], parameters = Undefined, fillAll = FillEmpty, filled = FStr [] \<rparr>"
  have s: "simRoute (ha @ [?e]) (hb @ [?e]) ?e ?e"
    by (simp add: simRoute_def simFillAll.intros simFilled.intros)
  from composeOps_simRoute [OF deref_append_new deref_append_new s, of steps]
  obtain r1 h1 o1 r2 h2 o2 where
    c1: "composeOps steps (createRoute ha) = Some (r1, h1)" and d1: "deref h1 r1 = Some o1" and
    c2: "composeOps steps (createRoute hb) = Some (r2, h2)" and d2: "deref h2 r2 = Some o2" and
    sim: "simRoute h1 h2 o1 o2"
    by (auto simp add: createRoute_def alloc_def)
  from sim have "template o1 = template o2"
    and "\<And>args. callFillAll h1 (fillAll o1) args = callFillAll h2 (fillAll o2) args"
    and "\<And>vs. observe (callChain h1 (filled o1) vs) = observe (callChain h2 (filled o2) vs)"
    by (simp_all add: simRoute_def simFillAll_call simFilled_callChain)
  with c1 d1 c2 d2 show ?thesis
    by (simp add: buildWithBuilder_composeOps)
qed

end
